theory Spec2Isabelle
  imports Main
begin

section \<open>Strings\<close>

text \<open>
  A Python \<open>str\<close> is modelled as a \<^typ>\<open>string\<close>: each \<^typ>\<open>char\<close> stands for one code
  point in the range U+0000..U+00FF. The three string methods the program calls
  (\<open>lower\<close>, \<open>strip\<close>, \<open>split\<close>) map that range into itself, so the model is closed under
  them; text with code points above U+00FF is outside the model.
\<close>

definition code_point :: "char \<Rightarrow> nat" where
  "code_point c = of_char c"

text \<open>\<open>str.isspace\<close> on one character: U+0009..U+000D, U+001C..U+0020, U+0085, U+00A0.\<close>

definition isspace :: "char \<Rightarrow> bool" where
  "isspace c =
     (let n = code_point c
      in (9 \<le> n \<and> n \<le> 13) \<or> (28 \<le> n \<and> n \<le> 32) \<or> n = 133 \<or> n = 160)"

text \<open>\<open>str.lower\<close>: A..Z and the Latin-1 capitals U+00C0..U+00DE (without U+00D7) move up by 32.\<close>

definition lower_char :: "char \<Rightarrow> char" where
  "lower_char c =
     (let n = code_point c
      in if (65 \<le> n \<and> n \<le> 90) \<or> (192 \<le> n \<and> n \<le> 222 \<and> n \<noteq> 215)
         then char_of (n + 32) else c)"

definition lower :: "string \<Rightarrow> string" where
  "lower s = map lower_char s"

text \<open>\<open>str.strip()\<close> without argument: whitespace is removed at both ends.\<close>

definition strip :: "string \<Rightarrow> string" where
  "strip s = rev (dropWhile isspace (rev (dropWhile isspace s)))"

text \<open>
  \<open>s.split(sep)\<close> for a separator of one character (the program only splits on \<open>"-"\<close>,
  \<open>" "\<close> and \<open>"@"\<close>): every occurrence separates, empty segments are kept, and the result
  always has at least one segment.
\<close>

fun str_split :: "char \<Rightarrow> string \<Rightarrow> string list" where
  "str_split sep [] = [[]]"
| "str_split sep (c # cs) =
     (if c = sep then [] # str_split sep cs
      else (case str_split sep cs of
              [] \<Rightarrow> [[c]]
            | seg # segs \<Rightarrow> (c # seg) # segs))"

datatype dns_failure = NXDOMAIN | NoAnswer | Timeout | NoNameservers | MalformedName | OtherFailure

datatype exn = IndexError | TypeError | DnsException dns_failure

text \<open>
  The subscript \<open>xs[i]\<close> of a Python list: indices from 0 on read from the front, indices
  from \<open>-1\<close> down read from the back, and any other index raises \<open>IndexError\<close>.
\<close>

definition getitem :: "'a list \<Rightarrow> int \<Rightarrow> exn + 'a" where
  "getitem xs i =
     (if 0 \<le> i \<and> i < int (length xs) then Inr (xs ! nat i)
      else if i < 0 \<and> - int (length xs) \<le> i then Inr (xs ! nat (int (length xs) + i))
      else Inl IndexError)"

text \<open>
  pandas' \<open>Series.str[i]\<close> on a column of lists: the same indexing, but an index out of
  range gives the missing value \<open>NaN\<close> (here \<open>None\<close>) for that row instead of raising.
\<close>

definition str_get :: "'a list \<Rightarrow> int \<Rightarrow> 'a option" where
  "str_get xs i = (case getitem xs i of Inl _ \<Rightarrow> None | Inr x \<Rightarrow> Some x)"

section \<open>Syntax validation\<close>

text \<open>
  The fragment of Python's regular expressions that \<open>validate_syntax\<close> uses: the anchors
  \<open>^\<close> and \<open>$\<close>, a literal character, and a character class repeated at least \<open>n\<close> times
  (\<open>+\<close> is \<open>{1,}\<close>). A class is a list of single characters and ranges.
\<close>

datatype class_item = Single char | Span char char

type_synonym char_class = "class_item list"

fun in_item :: "char \<Rightarrow> class_item \<Rightarrow> bool" where
  "in_item c (Single d) = (c = d)"
| "in_item c (Span lo hi) = (code_point lo \<le> code_point c \<and> code_point c \<le> code_point hi)"

definition in_class :: "char_class \<Rightarrow> char \<Rightarrow> bool" where
  "in_class cls c = list_ex (in_item c) cls"

datatype token = Bos | Eos | Lit char | Rep char_class nat

text \<open>
  \<open>re.match\<close>: the pattern is tried at position 0 only and may stop before the end of the
  string. \<open>re_match ts pos rest\<close> says whether the tokens \<open>ts\<close> match at position \<open>pos\<close>,
  where \<open>rest\<close> is the text from \<open>pos\<close> on. A repetition may take any number of characters
  of its class from its minimum on (the engine backtracks over all of them). Without the
  \<open>MULTILINE\<close> flag, \<open>^\<close> holds at position 0 only, and \<open>$\<close> holds at the end of the string
  and also just before a newline that is the last character of the string.
\<close>

fun re_match :: "token list \<Rightarrow> nat \<Rightarrow> string \<Rightarrow> bool" where
  "re_match [] pos rest = True"
| "re_match (Bos # ts) pos rest = (pos = 0 \<and> re_match ts pos rest)"
| "re_match (Eos # ts) pos rest =
     ((rest = [] \<or> rest = [CHR 0x0A]) \<and> re_match ts pos rest)"
| "re_match (Lit c # ts) pos [] = False"
| "re_match (Lit c # ts) pos (x # xs) = (x = c \<and> re_match ts (Suc pos) xs)"
| "re_match (Rep cls (Suc n) # ts) pos [] = False"
| "re_match (Rep cls (Suc n) # ts) pos (x # xs) =
     (in_class cls x \<and> re_match (Rep cls n # ts) (Suc pos) xs)"
| "re_match (Rep cls 0 # ts) pos [] = re_match ts pos []"
| "re_match (Rep cls 0 # ts) pos (x # xs) =
     ((in_class cls x \<and> re_match (Rep cls 0 # ts) (Suc pos) xs) \<or> re_match ts pos (x # xs))"

text \<open>The classes \<open>[a-zA-Z0-9._%+-]\<close>, \<open>[a-zA-Z0-9.-]\<close> and \<open>[a-zA-Z]\<close>.\<close>

definition local_class :: char_class where
  "local_class = [Span CHR ''a'' CHR ''z'', Span CHR ''A'' CHR ''Z'', Span CHR ''0'' CHR ''9'',
                  Single CHR ''.'', Single CHR ''_'', Single CHR ''%'', Single CHR ''+'',
                  Single CHR ''-'']"

definition domain_class :: char_class where
  "domain_class = [Span CHR ''a'' CHR ''z'', Span CHR ''A'' CHR ''Z'', Span CHR ''0'' CHR ''9'',
                   Single CHR ''.'', Single CHR ''-'']"

definition letter_class :: char_class where
  "letter_class = [Span CHR ''a'' CHR ''z'', Span CHR ''A'' CHR ''Z'']"

text \<open>\<open>^[a-zA-Z0-9._%+-]+@[a-zA-Z0-9.-]+\.[a-zA-Z]{2,}$\<close>\<close>

definition pattern :: "token list" where
  "pattern = [Bos, Rep local_class 1, Lit CHR ''@'', Rep domain_class 1, Lit CHR ''.'',
              Rep letter_class 2, Eos]"

definition validate_syntax :: "string \<Rightarrow> bool" where
  "validate_syntax email = re_match pattern 0 email"

section \<open>Mail-exchange lookup\<close>

text \<open>
  \<open>dns.resolver.resolve(domain, "MX")\<close> is the program's one call to the outside: it
  either returns the answer's records or raises. It is a parameter of the model. The
  program's effect on the outside is the sequence of domains it has asked for, kept as a
  log that each operation takes and returns.
\<close>

type_synonym mx_record = "nat \<times> string"

type_synonym resolver = "string \<Rightarrow> dns_failure + mx_record list"

type_synonym query_log = "string list"

text \<open>The body of the \<open>try\<close> block of \<open>validate_mx\<close>.\<close>

definition validate_mx_try :: "resolver \<Rightarrow> string \<Rightarrow> query_log \<Rightarrow> (exn + bool) \<times> query_log" where
  "validate_mx_try resolve domain log =
     (case resolve domain of
        Inl failure \<Rightarrow> (Inl (DnsException failure), log @ [domain])
      | Inr records \<Rightarrow> (Inr (0 < length records), log @ [domain]))"

text \<open>The bare \<open>except:\<close> catches whatever the body raises and returns \<open>False\<close>.\<close>

definition validate_mx :: "resolver \<Rightarrow> string \<Rightarrow> query_log \<Rightarrow> (exn + bool) \<times> query_log" where
  "validate_mx resolve domain log =
     (case validate_mx_try resolve domain log of
        (Inl _, log') \<Rightarrow> (Inr False, log')
      | (Inr found, log') \<Rightarrow> (Inr found, log'))"

section \<open>Classification\<close>

type_synonym verdict = "string \<times> string"

definition validate_email :: "resolver \<Rightarrow> string \<Rightarrow> query_log \<Rightarrow> (exn + verdict) \<times> query_log" where
  "validate_email resolve email log =
     (if \<not> validate_syntax email then (Inr (''Invalid Syntax'', ''Low''), log)
      else (case getitem (str_split CHR ''@'' email) 1 of
              Inl e \<Rightarrow> (Inl e, log)
            | Inr domain \<Rightarrow>
                (case validate_mx resolve domain log of
                   (Inl e, log') \<Rightarrow> (Inl e, log')
                 | (Inr found, log') \<Rightarrow>
                     if found then (Inr (''Valid Domain'', ''High''), log')
                     else (Inr (''No MX Record'', ''Medium''), log'))))"

section \<open>Scraping\<close>

text \<open>
  One organic result of the search service, as \<open>r.get("title")\<close> and \<open>r.get("link")\<close> read
  it: a key that is absent gives \<open>None\<close>. The search itself is outside the model; what it
  returned is the input, one list of results for each page asked for.
\<close>

record search_result =
  title :: "string option"
  link :: "string option"

text \<open>A row of the data frame built from the dictionaries \<open>{"Title": title, "Link": link}\<close>.\<close>

record row =
  Title :: string
  Link :: "string option"

text \<open>The inner loop of \<open>scrape_profiles\<close>: \<open>if title and "-" in title: rows.append(...)\<close>.\<close>

fun collect_results :: "search_result list \<Rightarrow> row list \<Rightarrow> row list" where
  "collect_results [] rows = rows"
| "collect_results (r # rs) rows =
     (case title r of
        None \<Rightarrow> collect_results rs rows
      | Some t \<Rightarrow>
          if t \<noteq> [] \<and> CHR ''-'' \<in> set t
          then collect_results rs (rows @ [\<lparr>Title = t, Link = link r\<rparr>])
          else collect_results rs rows)"

text \<open>The outer loop over the pages.\<close>

fun collect_pages :: "search_result list list \<Rightarrow> row list \<Rightarrow> row list" where
  "collect_pages [] rows = rows"
| "collect_pages (results # pages) rows = collect_pages pages (collect_results results rows)"

text \<open>
  \<open>DataFrame.drop_duplicates()\<close> with its defaults: rows are compared on all columns, the
  first of equal rows is kept, and the rows kept stay in their order. \<open>seen\<close> holds the rows
  met so far.
\<close>

fun drop_duplicates_from :: "'a list \<Rightarrow> 'a list \<Rightarrow> 'a list" where
  "drop_duplicates_from seen [] = []"
| "drop_duplicates_from seen (x # xs) =
     (if x \<in> set seen then drop_duplicates_from seen xs
      else x # drop_duplicates_from (x # seen) xs)"

definition drop_duplicates :: "'a list \<Rightarrow> 'a list" where
  "drop_duplicates xs = drop_duplicates_from [] xs"

definition scrape_profiles :: "search_result list list \<Rightarrow> row list" where
  "scrape_profiles pages = drop_duplicates (collect_pages pages [])"

section \<open>Names and addresses\<close>

text \<open>
  The columns the main action adds, one definition for each assignment. A column holds a
  string or the missing value in each row; the \<open>.str\<close> methods leave a missing value
  missing.
\<close>

text \<open>\<open>df["Title"].str.split("-").str[0].str.strip()\<close>\<close>

definition full_name_of :: "string \<Rightarrow> string option" where
  "full_name_of t = map_option strip (str_get (str_split CHR ''-'' t) 0)"

text \<open>\<open>df["Title"].str.split("-").str[1].str.strip()\<close>\<close>

definition position_of :: "string \<Rightarrow> string option" where
  "position_of t = map_option strip (str_get (str_split CHR ''-'' t) 1)"

text \<open>\<open>df["full_name"].str.split(" ").str[0]\<close> and \<open>df["full_name"].str.split(" ").str[-1]\<close>\<close>

definition first_name_of :: "string option \<Rightarrow> string option" where
  "first_name_of full = Option.bind full (\<lambda>n. str_get (str_split CHR '' '' n) 0)"

definition last_name_of :: "string option \<Rightarrow> string option" where
  "last_name_of full = Option.bind full (\<lambda>n. str_get (str_split CHR '' '' n) (- 1))"

text \<open>
  One element of
  \<open>df["first_name"].str.lower() + separator + df["last_name"].str.lower() + email_suffix.lower()\<close>.
\<close>

definition synthesize :: "string \<Rightarrow> string \<Rightarrow> string \<Rightarrow> string \<Rightarrow> string" where
  "synthesize fname separator lname email_suffix =
     lower fname @ separator @ lower lname @ lower email_suffix"

definition email_of :: "string option \<Rightarrow> string \<Rightarrow> string option \<Rightarrow> string \<Rightarrow> string option" where
  "email_of fname separator lname email_suffix =
     (case (fname, lname) of
        (Some f, Some l) \<Rightarrow> Some (synthesize f separator l email_suffix)
      | _ \<Rightarrow> None)"

record named_row = row +
  full_name :: "string option"
  position :: "string option"
  first_name :: "string option"
  last_name :: "string option"
  email :: "string option"

definition add_columns :: "string \<Rightarrow> string \<Rightarrow> row \<Rightarrow> named_row" where
  "add_columns separator email_suffix r =
     (let full = full_name_of (Title r);
          fname = first_name_of full;
          lname = last_name_of full
      in \<lparr>Title = Title r, Link = Link r,
          full_name = full, position = position_of (Title r),
          first_name = fname, last_name = lname,
          email = email_of fname separator lname email_suffix\<rparr>)"

section \<open>The main action\<close>

record result_row = named_row +
  validation_status :: string
  confidence :: string

text \<open>
  \<open>df["email"].apply(validate_email)\<close>: the rows are validated one after the other in
  the frame's order, and an exception in one row ends the run. \<open>re.match\<close> raises
  \<open>TypeError\<close> on a missing value.
\<close>

fun validate_rows :: "resolver \<Rightarrow> named_row list \<Rightarrow> query_log \<Rightarrow> (exn + result_row list) \<times> query_log" where
  "validate_rows resolve [] log = (Inr [], log)"
| "validate_rows resolve (r # rs) log =
     (case email r of
        None \<Rightarrow> (Inl TypeError, log)
      | Some e \<Rightarrow>
          (case validate_email resolve e log of
             (Inl ex, log') \<Rightarrow> (Inl ex, log')
           | (Inr (status, conf), log') \<Rightarrow>
               (case validate_rows resolve rs log' of
                  (Inl ex, log'') \<Rightarrow> (Inl ex, log'')
                | (Inr out, log'') \<Rightarrow>
                    (Inr (\<lparr>Title = Title r, Link = Link r, full_name = full_name r,
                           position = position r, first_name = first_name r,
                           last_name = last_name r, email = email r,
                           validation_status = status, confidence = conf\<rparr> # out), log''))))"

text \<open>
  The blocks \<open>PROCESS DATA\<close> and \<open>EMAIL VALIDATION\<close> of the main action (lines 139 to
  157), as a function of the frame \<open>df\<close> that \<open>scrape_profiles\<close> returned: the columns are
  added to every row, then the addresses are validated. The main action reaches these
  blocks only when its checks of the inputs have passed and the frame is not empty, and
  it writes the workbook after them; those steps belong to the surrounding shell and are
  not modelled.
\<close>

definition process_data ::
    "resolver \<Rightarrow> string \<Rightarrow> string \<Rightarrow> row list \<Rightarrow> query_log \<Rightarrow> (exn + result_row list) \<times> query_log" where
  "process_data resolve separator email_suffix df log =
     validate_rows resolve (map (add_columns separator email_suffix) df) log"

section \<open>The specification's words\<close>

text \<open>
  The address shape as the specification words it: one or more characters from letters,
  digits and \<open>._%+-\<close>, then \<open>@\<close>, then one or more from letters, digits and \<open>.-\<close>, then a
  dot, then two or more letters.
\<close>

definition is_letter :: "char \<Rightarrow> bool" where
  "is_letter c \<longleftrightarrow> c \<in> set ''abcdefghijklmnopqrstuvwxyzABCDEFGHIJKLMNOPQRSTUVWXYZ''"

definition is_digit :: "char \<Rightarrow> bool" where
  "is_digit c \<longleftrightarrow> c \<in> set ''0123456789''"

definition local_char :: "char \<Rightarrow> bool" where
  "local_char c \<longleftrightarrow> is_letter c \<or> is_digit c \<or> c \<in> set ''._%+-''"

definition domain_char :: "char \<Rightarrow> bool" where
  "domain_char c \<longleftrightarrow> is_letter c \<or> is_digit c \<or> c \<in> set ''.-''"

definition address_shape :: "string \<Rightarrow> bool" where
  "address_shape s \<longleftrightarrow>
     (\<exists>lp dp tld. s = lp @ ''@'' @ dp @ ''.'' @ tld \<and>
        lp \<noteq> [] \<and> list_all local_char lp \<and>
        dp \<noteq> [] \<and> list_all domain_char dp \<and>
        2 \<le> length tld \<and> list_all is_letter tld)"


text \<open>The text before the first separator, and the text after it.\<close>

definition before_first :: "char \<Rightarrow> string \<Rightarrow> string" where
  "before_first sep s = takeWhile (\<lambda>c. c \<noteq> sep) s"

definition after_first :: "char \<Rightarrow> string \<Rightarrow> string" where
  "after_first sep s = drop 1 (dropWhile (\<lambda>c. c \<noteq> sep) s)"

text \<open>
  A text with the whitespace next to its first separator removed, on both sides of the
  separator and nowhere else.
\<close>

definition trimmed_around :: "char \<Rightarrow> string \<Rightarrow> string" where
  "trimmed_around sep t =
     rev (dropWhile isspace (rev (before_first sep t))) @ sep # dropWhile isspace (after_first sep t)"

text \<open>The elements of a list at their first occurrence, in the order of the list.\<close>

definition first_occurrences :: "'a list \<Rightarrow> 'a list" where
  "first_occurrences xs = map (\<lambda>i. xs ! i) (filter (\<lambda>i. xs ! i \<notin> set (take i xs)) [0..<length xs])"

text \<open>The row a search result stands for, if its title has a hyphen.\<close>

definition row_of_result :: "search_result \<Rightarrow> row option" where
  "row_of_result r =
     (case title r of
        None \<Rightarrow> None
      | Some t \<Rightarrow> if CHR ''-'' \<in> set t then Some \<lparr>Title = t, Link = link r\<rparr> else None)"

text \<open>The two columns a result row has from the search: its source row.\<close>

definition source_row :: "result_row \<Rightarrow> row" where
  "source_row out = \<lparr>Title = Title out, Link = Link out\<rparr>"

text \<open>The rows of all pages whose title has a hyphen, in the order of the search results.\<close>

definition kept_rows :: "search_result list list \<Rightarrow> row list" where
  "kept_rows pages = List.map_filter row_of_result (concat pages)"

section \<open>Matching the pattern\<close>

lemma re_match_Rep_intro:
  "\<forall>c\<in>set us. in_class cls c \<Longrightarrow> n \<le> length us \<Longrightarrow> re_match ts (pos + length us) vs
   \<Longrightarrow> re_match (Rep cls n # ts) pos (us @ vs)"
proof (induction us arbitrary: n pos)
  case Nil
  then show ?case by (cases vs) simp_all
next
  case (Cons u us)
  then show ?case by (cases n) simp_all
qed

lemma re_match_Rep_elim:
  "re_match (Rep cls n # ts) pos rest \<Longrightarrow>
     \<exists>us vs. rest = us @ vs \<and> n \<le> length us \<and> (\<forall>c\<in>set us. in_class cls c) \<and>
             re_match ts (pos + length us) vs"
proof (induction rest arbitrary: n pos)
  case Nil
  then have "n = 0" and "re_match ts pos []" by (cases n; simp)+
  then show ?case by simp
next
  case (Cons x xs)
  let ?goal = "\<exists>us vs. x # xs = us @ vs \<and> n \<le> length us \<and> (\<forall>c\<in>set us. in_class cls c) \<and>
             re_match ts (pos + length us) vs"
  have step: ?goal if x: "in_class cls x" and m: "re_match (Rep cls m # ts) (Suc pos) xs"
    and n: "n \<le> Suc m" for m
  proof -
    from Cons.IH [OF m] obtain us vs where
      "xs = us @ vs" "m \<le> length us" "\<forall>c\<in>set us. in_class cls c"
      "re_match ts (Suc pos + length us) vs" by blast
    with x n have "x # xs = (x # us) @ vs \<and> n \<le> length (x # us) \<and>
        (\<forall>c\<in>set (x # us). in_class cls c) \<and> re_match ts (pos + length (x # us)) vs"
      by simp
    then show ?thesis by blast
  qed
  show ?case
  proof (cases n)
    case 0
    with Cons.prems have
      "(in_class cls x \<and> re_match (Rep cls 0 # ts) (Suc pos) xs) \<or> re_match ts pos (x # xs)"
      by simp
    then show ?thesis
    proof
      assume "in_class cls x \<and> re_match (Rep cls 0 # ts) (Suc pos) xs"
      then show ?thesis using step [of 0] 0 by simp
    next
      assume "re_match ts pos (x # xs)"
      with 0 have "x # xs = [] @ (x # xs) \<and> n \<le> length ([]::string) \<and>
        (\<forall>c\<in>set []. in_class cls c) \<and> re_match ts (pos + length ([]::string)) (x # xs)"
        by simp
      then show ?thesis by blast
    qed
  next
    case (Suc m)
    with Cons.prems have "in_class cls x" "re_match (Rep cls m # ts) (Suc pos) xs" by simp_all
    then show ?thesis using step [of m] Suc by simp
  qed
qed

lemma char_eq_code_point: "c = d \<longleftrightarrow> code_point c = code_point d"
  by (simp add: code_point_def)

lemma code_point_Char [simp]:
  "code_point (Char b0 b1 b2 b3 b4 b5 b6 b7) = of_char (Char b0 b1 b2 b3 b4 b5 b6 b7)"
  by (simp only: code_point_def)

lemma span_lower:
  "code_point CHR ''a'' \<le> code_point c \<and> code_point c \<le> code_point CHR ''z'' \<longleftrightarrow>
     c \<in> set ''abcdefghijklmnopqrstuvwxyz''"
  unfolding list.set insert_iff empty_iff char_eq_code_point [of c]
  by simp arith

lemma span_upper:
  "code_point CHR ''A'' \<le> code_point c \<and> code_point c \<le> code_point CHR ''Z'' \<longleftrightarrow>
     c \<in> set ''ABCDEFGHIJKLMNOPQRSTUVWXYZ''"
  unfolding list.set insert_iff empty_iff char_eq_code_point [of c]
  by simp arith

lemma span_digit:
  "code_point CHR ''0'' \<le> code_point c \<and> code_point c \<le> code_point CHR ''9'' \<longleftrightarrow>
     c \<in> set ''0123456789''"
  unfolding list.set insert_iff empty_iff char_eq_code_point [of c]
  by simp arith

lemma in_letter_class: "in_class letter_class c = is_letter c"
  unfolding in_class_def letter_class_def is_letter_def list_ex_Cons_iff list_ex_Nil_iff
    in_item.simps span_lower span_upper
  by (simp del: code_point_Char)

lemma in_local_class: "in_class local_class c = local_char c"
  unfolding in_class_def local_class_def local_char_def is_letter_def is_digit_def
    list_ex_Cons_iff list_ex_Nil_iff in_item.simps span_lower span_upper span_digit
  by (simp del: code_point_Char)

lemma in_domain_class: "in_class domain_class c = domain_char c"
  unfolding in_class_def domain_class_def domain_char_def is_letter_def is_digit_def
    list_ex_Cons_iff list_ex_Nil_iff in_item.simps span_lower span_upper span_digit
  by (simp del: code_point_Char)

lemma re_match_Rep_iff:
  "re_match (Rep cls n # ts) pos rest \<longleftrightarrow>
     (\<exists>us vs. rest = us @ vs \<and> n \<le> length us \<and> (\<forall>c\<in>set us. in_class cls c) \<and>
              re_match ts (pos + length us) vs)"
proof
  assume "re_match (Rep cls n # ts) pos rest"
  then show "\<exists>us vs. rest = us @ vs \<and> n \<le> length us \<and> (\<forall>c\<in>set us. in_class cls c) \<and>
              re_match ts (pos + length us) vs"
    by (rule re_match_Rep_elim)
next
  assume "\<exists>us vs. rest = us @ vs \<and> n \<le> length us \<and> (\<forall>c\<in>set us. in_class cls c) \<and>
              re_match ts (pos + length us) vs"
  then obtain us vs where "rest = us @ vs" "n \<le> length us" "\<forall>c\<in>set us. in_class cls c"
    "re_match ts (pos + length us) vs" by blast
  then show "re_match (Rep cls n # ts) pos rest"
    using re_match_Rep_intro [of us cls n ts pos vs] by simp
qed

lemma re_match_Lit_iff:
  "re_match (Lit c # ts) pos rest \<longleftrightarrow> (\<exists>xs. rest = c # xs \<and> re_match ts (Suc pos) xs)"
  by (cases rest) auto

lemma re_match_Eos: "re_match [Eos] pos rest \<longleftrightarrow> rest = [] \<or> rest = [CHR 0x0A]"
  by simp

lemma validate_syntax_elim:
  assumes "validate_syntax s"
  obtains lp dp tld nl where
    "s = lp @ CHR ''@'' # dp @ CHR ''.'' # tld @ nl"
    "lp \<noteq> []" "\<forall>c\<in>set lp. local_char c"
    "dp \<noteq> []" "\<forall>c\<in>set dp. domain_char c"
    "2 \<le> length tld" "\<forall>c\<in>set tld. is_letter c"
    "nl = [] \<or> nl = [CHR 0x0A]"
proof -
  from assms have "re_match (Rep local_class 1 # Lit CHR ''@'' # Rep domain_class 1 #
      Lit CHR ''.'' # [Rep letter_class 2, Eos]) 0 s"
    by (simp add: validate_syntax_def pattern_def)
  then obtain lp r1 where 1: "s = lp @ r1" "1 \<le> length lp" "\<forall>c\<in>set lp. in_class local_class c"
    and m1: "re_match (Lit CHR ''@'' # Rep domain_class 1 # Lit CHR ''.'' # [Rep letter_class 2, Eos])
       (0 + length lp) r1"
    unfolding re_match_Rep_iff [of local_class] by blast
  from m1 obtain r2 where 2: "r1 = CHR ''@'' # r2"
    and m2: "re_match (Rep domain_class 1 # Lit CHR ''.'' # [Rep letter_class 2, Eos])
       (Suc (0 + length lp)) r2"
    unfolding re_match_Lit_iff [of "CHR ''@''"] by blast
  from m2 obtain dp r3 where 3: "r2 = dp @ r3" "1 \<le> length dp" "\<forall>c\<in>set dp. in_class domain_class c"
    and m3: "re_match (Lit CHR ''.'' # [Rep letter_class 2, Eos])
       (Suc (0 + length lp) + length dp) r3"
    unfolding re_match_Rep_iff [of domain_class] by blast
  from m3 obtain r4 where 4: "r3 = CHR ''.'' # r4"
    and m4: "re_match [Rep letter_class 2, Eos] (Suc (Suc (0 + length lp) + length dp)) r4"
    unfolding re_match_Lit_iff [of "CHR ''.''"] by blast
  from m4 obtain tld nl where 5: "r4 = tld @ nl" "2 \<le> length tld" "\<forall>c\<in>set tld. in_class letter_class c"
    and m5: "re_match [Eos] (Suc (Suc (0 + length lp) + length dp) + length tld) nl"
    unfolding re_match_Rep_iff [of letter_class] by blast
  from m5 have 6: "nl = [] \<or> nl = [CHR 0x0A]" by simp
  show thesis
  proof (rule that [of lp dp tld nl])
    show "s = lp @ CHR ''@'' # dp @ CHR ''.'' # tld @ nl" using 1 2 3 4 5 by simp
    show "lp \<noteq> []" using 1 by auto
    show "dp \<noteq> []" using 3 by auto
    show "\<forall>c\<in>set lp. local_char c" using 1 by (simp add: in_local_class)
    show "\<forall>c\<in>set dp. domain_char c" using 3 by (simp add: in_domain_class)
    show "\<forall>c\<in>set tld. is_letter c" using 5 by (simp add: in_letter_class)
    show "2 \<le> length tld" by fact
    show "nl = [] \<or> nl = [CHR 0x0A]" by fact
  qed
qed

lemma validate_syntax_intro:
  assumes "lp \<noteq> []" "\<forall>c\<in>set lp. local_char c"
    "dp \<noteq> []" "\<forall>c\<in>set dp. domain_char c"
    "2 \<le> length tld" "\<forall>c\<in>set tld. is_letter c"
    "nl = [] \<or> nl = [CHR 0x0A]"
  shows "validate_syntax (lp @ CHR ''@'' # dp @ CHR ''.'' # tld @ nl)"
proof -
  have m5: "re_match [Eos] p nl" for p using assms(7) by auto
  have m4: "re_match [Rep letter_class 2, Eos] p (tld @ nl)" for p
    by (rule re_match_Rep_intro) (use assms m5 in \<open>simp_all add: in_letter_class\<close>)
  have m3: "re_match (Lit CHR ''.'' # [Rep letter_class 2, Eos]) p (CHR ''.'' # tld @ nl)" for p
    using m4 by simp
  have m2: "re_match (Rep domain_class 1 # Lit CHR ''.'' # [Rep letter_class 2, Eos]) p
      (dp @ CHR ''.'' # tld @ nl)" for p
    by (rule re_match_Rep_intro) (use assms m3 in \<open>simp_all add: in_domain_class Suc_le_eq\<close>)
  have m1: "re_match (Lit CHR ''@'' # Rep domain_class 1 # Lit CHR ''.'' # [Rep letter_class 2, Eos]) p
      (CHR ''@'' # dp @ CHR ''.'' # tld @ nl)" for p
    using m2 by simp
  have "re_match (Rep local_class 1 # Lit CHR ''@'' # Rep domain_class 1 # Lit CHR ''.'' #
      [Rep letter_class 2, Eos]) 0 (lp @ CHR ''@'' # dp @ CHR ''.'' # tld @ nl)"
    by (rule re_match_Rep_intro) (use assms m1 in \<open>simp_all add: in_local_class Suc_le_eq\<close>)
  then show ?thesis by (simp add: validate_syntax_def pattern_def)
qed

lemma address_shape_imp_validate_syntax:
  assumes "address_shape s" and "nl = [] \<or> nl = [CHR 0x0A]"
  shows "validate_syntax (s @ nl)"
proof -
  from assms(1) obtain lp dp tld where s: "s = lp @ ''@'' @ dp @ ''.'' @ tld"
    and h: "lp \<noteq> []" "list_all local_char lp" "dp \<noteq> []" "list_all domain_char dp"
      "2 \<le> length tld" "list_all is_letter tld"
    unfolding address_shape_def by blast
  have "validate_syntax (lp @ CHR ''@'' # dp @ CHR ''.'' # tld @ nl)"
    by (rule validate_syntax_intro) (use h assms(2) in \<open>simp_all add: list_all_iff\<close>)
  then show ?thesis by (simp add: s)
qed

lemma validate_syntax_iff:
  "validate_syntax s \<longleftrightarrow> address_shape s \<or> (\<exists>t. s = t @ [CHR 0x0A] \<and> address_shape t)"
proof
  assume "validate_syntax s"
  then obtain lp dp tld nl where s: "s = lp @ CHR ''@'' # dp @ CHR ''.'' # tld @ nl"
    and h: "lp \<noteq> []" "\<forall>c\<in>set lp. local_char c" "dp \<noteq> []" "\<forall>c\<in>set dp. domain_char c"
      "2 \<le> length tld" "\<forall>c\<in>set tld. is_letter c"
    and nl: "nl = [] \<or> nl = [CHR 0x0A]"
    by (rule validate_syntax_elim)
  let ?t = "lp @ ''@'' @ dp @ ''.'' @ tld"
  have t: "address_shape ?t"
    unfolding address_shape_def list_all_iff using h by blast
  from nl show "address_shape s \<or> (\<exists>t. s = t @ [CHR 0x0A] \<and> address_shape t)"
  proof
    assume "nl = []"
    with s have "s = ?t" by simp
    with t show ?thesis by simp
  next
    assume "nl = [CHR 0x0A]"
    with s have "s = ?t @ [CHR 0x0A]" by simp
    with t show ?thesis by blast
  qed
next
  assume "address_shape s \<or> (\<exists>t. s = t @ [CHR 0x0A] \<and> address_shape t)"
  then show "validate_syntax s"
  proof
    assume "address_shape s"
    then have "validate_syntax (s @ [])" by (rule address_shape_imp_validate_syntax) simp
    then show ?thesis by simp
  next
    assume "\<exists>t. s = t @ [CHR 0x0A] \<and> address_shape t"
    then obtain t where "s = t @ [CHR 0x0A]" "address_shape t" by blast
    then show ?thesis using address_shape_imp_validate_syntax [of t "[CHR 0x0A]"] by simp
  qed
qed

section \<open>Splitting and indexing\<close>

lemma str_split_not_Nil: "str_split sep s \<noteq> []"
  by (induction s) (auto split: list.splits)

lemma str_split_no_sep: "sep \<notin> set s \<Longrightarrow> str_split sep s = [s]"
  by (induction s) auto

lemma str_split_first: "sep \<notin> set a \<Longrightarrow> str_split sep (a @ sep # b) = a # str_split sep b"
  by (induction a) auto

lemma before_first_append: "sep \<notin> set a \<Longrightarrow> before_first sep (a @ sep # b) = a"
  by (induction a) (auto simp: before_first_def)

lemma after_first_append: "sep \<notin> set a \<Longrightarrow> after_first sep (a @ sep # b) = b"
  by (induction a) (auto simp: after_first_def)

lemma str_split_before_after:
  "sep \<in> set s \<Longrightarrow> str_split sep s = before_first sep s # str_split sep (after_first sep s)"
proof -
  assume "sep \<in> set s"
  then obtain a b where s: "s = a @ sep # b" and a: "sep \<notin> set a"
    by (meson split_list_first)
  have "before_first sep s = a" using a by (simp add: s before_first_append)
  moreover have "after_first sep s = b" using a by (simp add: s after_first_append)
  ultimately show ?thesis using str_split_first [OF a, of b] s by simp
qed

lemma getitem_0: "getitem (x # xs) 0 = Inr x"
  by (simp add: getitem_def)

lemma getitem_1: "getitem (x # y # ys) 1 = Inr y"
  by (simp add: getitem_def)

lemma getitem_1_single: "getitem [x] 1 = Inl IndexError"
  by (simp add: getitem_def)

lemma getitem_last: "xs \<noteq> [] \<Longrightarrow> getitem xs (- 1) = Inr (last xs)"
  by (cases xs rule: rev_cases) (auto simp: getitem_def nth_append nat_add_distrib)

lemma local_char_not_at: "local_char c \<Longrightarrow> c \<noteq> CHR ''@''"
  by (auto simp: local_char_def is_letter_def is_digit_def)

lemma domain_char_not_at: "domain_char c \<Longrightarrow> c \<noteq> CHR ''@''"
  by (auto simp: domain_char_def is_letter_def is_digit_def)

lemma is_letter_not_at: "is_letter c \<Longrightarrow> c \<noteq> CHR ''@''"
  by (auto simp: is_letter_def)

lemma validate_syntax_one_at:
  assumes "validate_syntax s"
  obtains lp d where "s = lp @ CHR ''@'' # d" "CHR ''@'' \<notin> set lp" "CHR ''@'' \<notin> set d"
proof -
  from assms obtain lp dp tld nl where s: "s = lp @ CHR ''@'' # dp @ CHR ''.'' # tld @ nl"
    and h: "\<forall>c\<in>set lp. local_char c" "\<forall>c\<in>set dp. domain_char c" "\<forall>c\<in>set tld. is_letter c"
    and nl: "nl = [] \<or> nl = [CHR 0x0A]"
    by (rule validate_syntax_elim)
  have 1: "CHR ''@'' \<notin> set lp" using h(1) local_char_not_at by blast
  have 2: "CHR ''@'' \<notin> set dp" using h(2) domain_char_not_at by blast
  have 3: "CHR ''@'' \<notin> set tld" using h(3) is_letter_not_at by blast
  have 4: "CHR ''@'' \<notin> set nl" using nl by auto
  have "CHR ''@'' \<notin> set (dp @ CHR ''.'' # tld @ nl)" using 2 3 4 by simp
  with s 1 show thesis by (rule that)
qed

lemma count_list_0: "x \<notin> set xs \<Longrightarrow> count_list xs x = 0"
  by (induction xs) auto

lemma validate_syntax_domain:
  assumes "validate_syntax s"
  shows "count_list s CHR ''@'' = 1"
    and "s = before_first CHR ''@'' s @ CHR ''@'' # after_first CHR ''@'' s"
    and "getitem (str_split CHR ''@'' s) 1 = Inr (after_first CHR ''@'' s)"
proof -
  from assms obtain lp d where s: "s = lp @ CHR ''@'' # d"
    and lp: "CHR ''@'' \<notin> set lp" and d: "CHR ''@'' \<notin> set d"
    by (rule validate_syntax_one_at)
  have b: "before_first CHR ''@'' s = lp" using lp by (simp add: s before_first_append)
  have a: "after_first CHR ''@'' s = d" using lp by (simp add: s after_first_append)
  show "count_list s CHR ''@'' = 1" using lp d by (simp add: s count_list_0)
  show "s = before_first CHR ''@'' s @ CHR ''@'' # after_first CHR ''@'' s"
    using s a b by simp
  show "getitem (str_split CHR ''@'' s) 1 = Inr (after_first CHR ''@'' s)"
    using lp d by (simp add: s after_first_append str_split_first str_split_no_sep getitem_1)
qed

section \<open>The classifier on either branch\<close>

lemma validate_mx_eq:
  "validate_mx resolve domain log =
     (Inr (case resolve domain of Inl failure \<Rightarrow> False | Inr records \<Rightarrow> records \<noteq> []),
      log @ [domain])"
  by (simp add: validate_mx_def validate_mx_try_def split: sum.splits)

lemma validate_email_valid:
  assumes "validate_syntax addr"
  shows "validate_email resolve addr log =
     (Inr (if (case resolve (after_first CHR ''@'' addr) of Inl failure \<Rightarrow> False | Inr records \<Rightarrow> records \<noteq> [])
           then (''Valid Domain'', ''High'') else (''No MX Record'', ''Medium'')),
      log @ [after_first CHR ''@'' addr])"
  using assms validate_syntax_domain(3) [OF assms]
  by (simp add: validate_email_def validate_mx_eq)

lemma validate_email_invalid:
  "\<not> validate_syntax addr \<Longrightarrow> validate_email resolve addr log = (Inr (''Invalid Syntax'', ''Low''), log)"
  by (simp add: validate_email_def)

section \<open>Columns of names\<close>

lemma str_get_0: "str_get (x # xs) 0 = Some x"
  by (simp add: str_get_def getitem_0)

lemma str_get_1: "str_get (x # y # ys) 1 = Some y"
  by (simp add: str_get_def getitem_1)

lemma str_get_last: "xs \<noteq> [] \<Longrightarrow> str_get xs (- 1) = Some (last xs)"
  by (simp add: str_get_def getitem_last)

lemma str_get_0_split: "str_get (str_split sep s) 0 = Some (before_first sep s)"
proof (cases "sep \<in> set s")
  case True
  then show ?thesis by (simp add: str_split_before_after str_get_0)
next
  case False
  then have "before_first sep s = s" by (auto simp: before_first_def)
  with False show ?thesis by (simp add: str_split_no_sep str_get_0)
qed

lemma hd_str_split: "hd (str_split sep s) = before_first sep s"
  using str_get_0_split [of sep s] by (cases "str_split sep s") (simp_all add: str_get_0 str_split_not_Nil)

lemma str_get_1_split:
  "sep \<in> set s \<Longrightarrow> str_get (str_split sep s) 1 = Some (before_first sep (after_first sep s))"
proof -
  assume "sep \<in> set s"
  then have "str_split sep s = before_first sep s # str_split sep (after_first sep s)"
    by (rule str_split_before_after)
  moreover obtain y ys where ys: "str_split sep (after_first sep s) = y # ys"
    using str_split_not_Nil [of sep "after_first sep s"] by (cases "str_split sep (after_first sep s)") auto
  moreover have "y = before_first sep (after_first sep s)"
    using hd_str_split [of sep "after_first sep s"] ys by simp
  ultimately show ?thesis by (simp add: str_get_1)
qed

lemma full_name_of_eq: "full_name_of t = Some (strip (before_first CHR ''-'' t))"
  by (simp add: full_name_of_def str_get_0_split)

lemma position_of_eq:
  "CHR ''-'' \<in> set t \<Longrightarrow>
     position_of t = Some (strip (before_first CHR ''-'' (after_first CHR ''-'' t)))"
  by (simp add: position_of_def str_get_1_split)

lemma position_of_None: "CHR ''-'' \<notin> set t \<Longrightarrow> position_of t = None"
  by (simp add: position_of_def str_split_no_sep str_get_def getitem_def)

lemma first_name_of_eq: "first_name_of (Some n) = Some (before_first CHR '' '' n)"
  by (simp add: first_name_of_def str_get_0_split)

lemma last_name_of_eq: "last_name_of (Some n) = Some (last (str_split CHR '' '' n))"
  by (simp add: last_name_of_def str_get_last str_split_not_Nil)

lemma strip_decompose:
  "\<exists>w1 w2. list_all isspace w1 \<and> list_all isspace w2 \<and> s = w1 @ strip s @ w2"
proof -
  let ?a = "takeWhile isspace s" and ?r = "dropWhile isspace s"
  let ?b = "rev (takeWhile isspace (rev ?r))"
  have "rev ?r = takeWhile isspace (rev ?r) @ dropWhile isspace (rev ?r)" by simp
  then have "?r = rev (dropWhile isspace (rev ?r)) @ ?b"
    by (metis rev_append rev_rev_ident)
  then have "s = ?a @ strip s @ ?b"
    unfolding strip_def by (metis takeWhile_dropWhile_id)
  moreover have "list_all isspace ?a" by (simp add: list_all_iff) (meson set_takeWhileD)
  moreover have "list_all isspace ?b" by (simp add: list_all_iff) (meson set_takeWhileD)
  ultimately show ?thesis by blast
qed

lemma set_strip: "set (strip s) \<subseteq> set s"
  unfolding strip_def by (metis set_dropWhileD set_rev subsetI)

lemma strip_strip: "strip (strip s) = strip s"
proof -
  let ?u = "dropWhile isspace (rev (dropWhile isspace s))"
  have 1: "dropWhile isspace ?u = ?u" by (simp add: dropWhile_idem)
  have "dropWhile isspace (rev ?u) = rev ?u"
  proof (cases "rev ?u")
    case Nil
    show ?thesis unfolding Nil by simp
  next
    case (Cons x xs)
    have "x = hd (rev ?u)" using Cons by simp
    have "rev ?u \<noteq> []" using Cons by simp
    then have u: "?u \<noteq> []" by simp
    have "dropWhile isspace s \<noteq> []"
    proof
      assume e: "dropWhile isspace s = []"
      have "?u = []" unfolding e by simp
      with u show False by blast
    qed
    then have "\<not> isspace (hd (dropWhile isspace s))" by (rule hd_dropWhile)
    moreover have "hd (rev ?u) = hd (dropWhile isspace s)"
    proof -
      have "rev (dropWhile isspace s) = takeWhile isspace (rev (dropWhile isspace s)) @ ?u" by simp
      then have "dropWhile isspace s = rev ?u @ rev (takeWhile isspace (rev (dropWhile isspace s)))"
        by (metis rev_append rev_rev_ident)
      then show ?thesis using u by (metis hd_append2 rev_is_Nil_conv)
    qed
    ultimately have "\<not> isspace x" using Cons by simp
    then show ?thesis using Cons by simp
  qed
  then show ?thesis unfolding strip_def by (simp add: 1)
qed

lemma count_list_one_split:
  assumes "count_list t c = 1"
  obtains a b where "t = a @ c # b" "c \<notin> set a" "c \<notin> set b"
proof -
  from assms have "c \<in> set t" using count_list_0_iff [of t c] by auto
  then obtain a b where t: "t = a @ c # b" and a: "c \<notin> set a"
    by (meson split_list_first)
  from a have "count_list a c = 0" by (simp add: count_list_0_iff)
  with assms t have "count_list b c = 0" by simp
  then have "c \<notin> set b" by (simp add: count_list_0_iff)
  with t a show thesis by (rule that)
qed

lemma before_first_no_sep: "sep \<notin> set s \<Longrightarrow> before_first sep s = s"
  by (auto simp: before_first_def)

section \<open>Scraping, deduplication and the processed frame\<close>

lemma map_filter_append:
  "List.map_filter f (xs @ ys) = List.map_filter f xs @ List.map_filter f ys"
  by (simp add: List.map_filter_def)

lemma collect_results_eq: "collect_results rs rows = rows @ List.map_filter row_of_result rs"
proof (induction rs arbitrary: rows)
  case Nil
  show ?case by (simp add: map_filter_simps)
next
  case (Cons r rs)
  show ?case
    by (cases "title r") (auto simp: Cons.IH map_filter_simps row_of_result_def)
qed

lemma collect_pages_eq: "collect_pages pages rows = rows @ List.map_filter row_of_result (concat pages)"
proof (induction pages arbitrary: rows)
  case Nil
  show ?case by (simp add: map_filter_simps)
next
  case (Cons p pages)
  show ?case by (simp add: Cons.IH collect_results_eq map_filter_append)
qed

lemma scrape_profiles_eq: "scrape_profiles pages = drop_duplicates (kept_rows pages)"
  by (simp add: scrape_profiles_def kept_rows_def collect_pages_eq)

lemma drop_duplicates_from_eq:
  "drop_duplicates_from seen xs =
     map (\<lambda>i. xs ! i) (filter (\<lambda>i. xs ! i \<notin> set seen \<union> set (take i xs)) [0..<length xs])"
proof (induction xs arbitrary: seen)
  case Nil
  show ?case by simp
next
  case (Cons x xs)
  have upt: "[0..<length (x # xs)] = 0 # map Suc [0..<length xs]"
    by (simp add: upt_conv_Cons map_Suc_upt del: upt_Suc)
  show ?case
  proof (cases "x \<in> set seen")
    case True
    then have "filter (\<lambda>i. xs ! i \<notin> set seen \<and> xs ! i \<noteq> x \<and> xs ! i \<notin> set (take i xs)) [0..<length xs] =
        filter (\<lambda>i. xs ! i \<notin> set seen \<and> xs ! i \<notin> set (take i xs)) [0..<length xs]"
      by (intro filter_cong refl) auto
    with True show ?thesis
      unfolding upt by (simp add: Cons.IH filter_map comp_def del: upt_Suc)
  next
    case False
    have "filter (\<lambda>i. xs ! i \<noteq> x \<and> xs ! i \<notin> set seen \<and> xs ! i \<notin> set (take i xs)) [0..<length xs] =
        filter (\<lambda>i. xs ! i \<notin> set seen \<and> xs ! i \<noteq> x \<and> xs ! i \<notin> set (take i xs)) [0..<length xs]"
      by (intro filter_cong refl) auto
    with False show ?thesis
      unfolding upt by (simp add: Cons.IH filter_map comp_def del: upt_Suc)
  qed
qed

lemma drop_duplicates_first_occurrences: "drop_duplicates xs = first_occurrences xs"
  by (simp add: drop_duplicates_def first_occurrences_def drop_duplicates_from_eq)

lemma set_drop_duplicates_from: "set (drop_duplicates_from seen xs) = set xs - set seen"
  by (induction xs arbitrary: seen) auto

lemma distinct_drop_duplicates_from: "distinct (drop_duplicates_from seen xs)"
  by (induction xs arbitrary: seen) (auto simp: set_drop_duplicates_from)

lemma set_drop_duplicates: "set (drop_duplicates xs) = set xs"
  by (simp add: drop_duplicates_def set_drop_duplicates_from)

lemma distinct_drop_duplicates: "distinct (drop_duplicates xs)"
  by (simp add: drop_duplicates_def distinct_drop_duplicates_from)

lemma email_add_columns: "email (add_columns separator email_suffix r) \<noteq> None"
  by (simp add: add_columns_def Let_def full_name_of_eq first_name_of_eq last_name_of_eq email_of_def)

lemma validate_email_returns: "\<exists>status conf log'. validate_email resolve addr log = (Inr (status, conf), log')"
  by (cases "validate_syntax addr") (simp_all add: validate_email_invalid validate_email_valid)

lemma validate_rows_total:
  assumes "\<forall>r\<in>set rows. email r \<noteq> None"
  shows "\<exists>out log'. validate_rows resolve rows log = (Inr out, log') \<and>
           map source_row out = map (\<lambda>r. \<lparr>Title = Title r, Link = Link r\<rparr>) rows"
  using assms
proof (induction rows arbitrary: log)
  case Nil
  show ?case by simp
next
  case (Cons r rows)
  from Cons.prems obtain e where e: "email r = Some e" by auto
  obtain status conf log1 where v: "validate_email resolve e log = (Inr (status, conf), log1)"
    using validate_email_returns by blast
  from Cons.IH [of log1] Cons.prems obtain out log2 where
    rest: "validate_rows resolve rows log1 = (Inr out, log2)"
      "map source_row out = map (\<lambda>r. \<lparr>Title = Title r, Link = Link r\<rparr>) rows" by auto
  show ?case by (simp add: e v rest) (simp add: source_row_def)
qed

lemma row_eta: "\<lparr>Title = Title r, Link = Link r\<rparr> = (r::row)"
  by (cases r) simp

lemma process_data_rows:
  "\<exists>out log'. process_data resolve separator email_suffix df log = (Inr out, log') \<and>
      map source_row out = df"
proof -
  let ?rows = "map (add_columns separator email_suffix) df"
  have "\<forall>r\<in>set ?rows. email r \<noteq> None"
    by (simp add: email_add_columns del: not_None_eq)
  from validate_rows_total [OF this, of resolve log] obtain out log' where
    v: "validate_rows resolve ?rows log = (Inr out, log')"
    and m: "map source_row out = map (\<lambda>r. \<lparr>Title = Title r, Link = Link r\<rparr>) ?rows" by blast
  have "map (\<lambda>r. \<lparr>Title = Title r, Link = Link r\<rparr>) ?rows = df"
    by (simp add: comp_def add_columns_def Let_def row_eta)
  with v m show ?thesis by (simp add: process_data_def)
qed

lemma address_shape_last: "address_shape s \<Longrightarrow> is_letter (last s)"
proof -
  assume "address_shape s"
  then obtain lp dp tld where s: "s = lp @ ''@'' @ dp @ ''.'' @ tld"
    and tld: "2 \<le> length tld" "list_all is_letter tld"
    unfolding address_shape_def by blast
  from tld(1) have ne: "tld \<noteq> []" by auto
  then have "last s = last tld" by (simp add: s)
  moreover have "last tld \<in> set tld" using ne by simp
  ultimately show ?thesis using tld(2) by (simp add: list_all_iff)
qed

lemma length_filter_distinct:
  assumes "distinct (map f xs)" and "w \<in> set (map f xs)"
  shows "length (filter (\<lambda>x. f x = w) xs) = 1"
  using assms
proof (induction xs)
  case Nil
  then show ?case by simp
next
  case (Cons x xs)
  show ?case
  proof (cases "f x = w")
    case True
    with Cons.prems(1) have "w \<notin> f ` set xs" by auto
    then have "filter (\<lambda>x. f x = w) xs = []" by (auto simp: filter_empty_conv)
    with True show ?thesis by simp
  next
    case False
    with Cons show ?thesis by auto
  qed
qed

lemma kept_rows_member: "w \<in> set (kept_rows pages) \<longleftrightarrow> (\<exists>r\<in>set (concat pages). row_of_result r = Some w)"
  unfolding kept_rows_def List.map_filter_def by force

lemma kept_rows_hyphen: "w \<in> set (kept_rows pages) \<Longrightarrow> CHR ''-'' \<in> set (Title w)"
proof -
  assume "w \<in> set (kept_rows pages)"
  then obtain r where "row_of_result r = Some w" unfolding kept_rows_member by blast
  then show ?thesis
    by (cases "title r") (auto simp: row_of_result_def split: if_splits)
qed

lemma source_row_eq_iff:
  "row_of_result r = Some w \<Longrightarrow>
     (Some (Title out) = title r \<and> Link out = link r) \<longleftrightarrow> source_row out = w"
  by (cases "title r") (auto simp: row_of_result_def source_row_def split: if_splits)

section \<open>The claims\<close>

text \<open>
  Claim C1. For every address, \<open>validate_email\<close> returns (it raises nothing, the index
  into the split address being in bounds whenever it is reached) one of three pairs:
  \<open>("Invalid Syntax", "Low")\<close> when \<open>validate_syntax\<close> is false; otherwise
  \<open>("Valid Domain", "High")\<close> when \<open>validate_mx\<close> of the text after the \<open>@\<close> is true, and
  \<open>("No MX Record", "Medium")\<close> when it is false. Two results with the same status, for
  whatever resolver, address and log, have the same confidence.
\<close>

theorem validate_email_verdict:
  "fst (validate_email resolve addr log) =
     Inr (if \<not> validate_syntax addr then (''Invalid Syntax'', ''Low'')
          else if fst (validate_mx resolve (after_first CHR ''@'' addr) log) = Inr True
               then (''Valid Domain'', ''High'')
               else (''No MX Record'', ''Medium'')) \<and>
   (\<forall>resolve' addr' log' status conf conf'.
      fst (validate_email resolve addr log) = Inr (status, conf) \<and>
      fst (validate_email resolve' addr' log') = Inr (status, conf') \<longrightarrow> conf = conf')"
proof -
  have v: "fst (validate_email r e l) =
     Inr (if \<not> validate_syntax e then (''Invalid Syntax'', ''Low'')
          else if fst (validate_mx r (after_first CHR ''@'' e) l) = Inr True
               then (''Valid Domain'', ''High'')
               else (''No MX Record'', ''Medium''))" for r e l
    by (cases "validate_syntax e")
      (simp_all add: validate_email_invalid validate_email_valid validate_mx_eq)
  have cases3: "fst (validate_email r e l) = Inr (''Invalid Syntax'', ''Low'') \<or>
      fst (validate_email r e l) = Inr (''Valid Domain'', ''High'') \<or>
      fst (validate_email r e l) = Inr (''No MX Record'', ''Medium'')" for r e l
    unfolding v by simp
  have "conf = conf'"
    if "fst (validate_email resolve addr log) = Inr (status, conf)"
      and "fst (validate_email r e l) = Inr (status, conf')" for r e l status conf conf'
    using that cases3 [of resolve addr log] cases3 [of r e l] by auto
  with v show ?thesis by blast
qed

text \<open>
  The address of the specification's third scenario, with a resolver that finds nothing.
\<close>

theorem validate_email_verdict_witness:
  "fst (validate_email (\<lambda>d. Inl NXDOMAIN) ''jane.doe@nonexistent-domain-xyz.invalid'' []) =
     Inr (''No MX Record'', ''Medium'')"
proof -
  have v: "validate_syntax ''jane.doe@nonexistent-domain-xyz.invalid''" by code_simp
  have mx: "fst (validate_mx (\<lambda>d. Inl NXDOMAIN) d []) \<noteq> Inr True" for d
    by (simp add: validate_mx_eq)
  from validate_email_verdict [of "\<lambda>d. Inl NXDOMAIN" "''jane.doe@nonexistent-domain-xyz.invalid''" "[]"]
  show ?thesis by (simp add: v mx)
qed

text \<open>
  Claim C2 says that the domain suffix is appended exactly as supplied. The program
  lower-cases the suffix as well (\<open>email_suffix.lower()\<close>), so a suffix with a capital
  letter is not appended as supplied.
\<close>

theorem synthesize_verbatim_suffix_counterexample:
  "synthesize ''Jane'' ''.'' ''Doe'' ''@ACME.com'' \<noteq> lower ''Jane'' @ ''.'' @ lower ''Doe'' @ ''@ACME.com''"
  by code_simp

text \<open>
  Claim C2, amended. For non-empty first and last names and every separator and suffix,
  the address is \<open>lower(first) + separator + lower(last) + lower(suffix)\<close>: the suffix is
  lower-cased too. The address column of a row whose names are present holds exactly
  this string.
\<close>

theorem synthesize_lowers_suffix:
  assumes "fname \<noteq> []" and "lname \<noteq> []"
  shows "synthesize fname separator lname email_suffix =
           lower fname @ separator @ lower lname @ lower email_suffix \<and>
         email_of (Some fname) separator (Some lname) email_suffix =
           Some (lower fname @ separator @ lower lname @ lower email_suffix)"
  by (simp add: synthesize_def email_of_def)

text \<open>
  The specification's first scenario, with capitals in the suffix.
\<close>

theorem synthesize_lowers_suffix_witness:
  "synthesize ''Jane'' ''.'' ''Doe'' ''@ACME.com'' = ''jane.doe@acme.com''"
proof -
  have l: "lower ''Jane'' @ ''.'' @ lower ''Doe'' @ lower ''@ACME.com'' = ''jane.doe@acme.com''"
    by code_simp
  have "''Jane'' \<noteq> []" and "''Doe'' \<noteq> []" by simp_all
  from synthesize_lowers_suffix [OF this, of "''.''" "''@ACME.com''"] show ?thesis
    unfolding l by (rule conjunct1)
qed

text \<open>
  Claim C3 says that the position is the trimmed entire remainder after the first hyphen.
  The program splits at every hyphen and takes the segment of index 1, so with a second
  hyphen the position ends there.
\<close>

theorem position_is_remainder_counterexample:
  "position_of ''Jane Doe - HR Manager - Acme'' \<noteq>
     Some (strip (after_first CHR ''-'' ''Jane Doe - HR Manager - Acme''))"
  by code_simp

text \<open>
  Claim C3, amended. For every title with at least one hyphen, the full name is the
  trimmed text before the first hyphen, and the position is the trimmed text between the
  first hyphen and the next one (up to the end of the title when there is no other
  hyphen).
\<close>

theorem parse_title_segments:
  assumes "CHR ''-'' \<in> set t"
  shows "full_name_of t = Some (strip (before_first CHR ''-'' t)) \<and>
         position_of t = Some (strip (before_first CHR ''-'' (after_first CHR ''-'' t)))"
  using assms by (simp add: full_name_of_eq position_of_eq)

text \<open>
  A title with two hyphens.
\<close>

theorem parse_title_segments_witness:
  "full_name_of ''Jane Doe - HR Manager - Acme'' = Some ''Jane Doe'' \<and>
   position_of ''Jane Doe - HR Manager - Acme'' = Some ''HR Manager''"
proof -
  have h: "CHR ''-'' \<in> set ''Jane Doe - HR Manager - Acme''" by simp
  have 1: "strip (before_first CHR ''-'' ''Jane Doe - HR Manager - Acme'') = ''Jane Doe''"
    by code_simp
  have 2: "strip (before_first CHR ''-'' (after_first CHR ''-'' ''Jane Doe - HR Manager - Acme'')) = ''HR Manager''"
    by code_simp
  from parse_title_segments [OF h] show ?thesis unfolding 1 2 .
qed

text \<open>
  Claim C4. For every address that \<open>validate_syntax\<close> rejects, \<open>validate_email\<close> returns
  \<open>("Invalid Syntax", "Low")\<close> and leaves the log of lookups as it was: no lookup is made,
  and the result is the same under any two resolvers.
\<close>

theorem invalid_syntax_skips_lookup:
  "\<not> validate_syntax addr \<Longrightarrow>
     validate_email resolve addr log = (Inr (''Invalid Syntax'', ''Low''), log) \<and>
     validate_email resolve addr log = validate_email resolve' addr log"
  by (simp add: validate_email_invalid)

text \<open>
  The specification's fourth scenario, under a resolver that answers and one that times out.
\<close>

theorem invalid_syntax_skips_lookup_witness:
  "\<not> validate_syntax ''not-an-email'' \<and>
   (validate_email (\<lambda>d. Inr [(10, ''mx'')]) ''not-an-email'' [] = (Inr (''Invalid Syntax'', ''Low''), []) \<and>
    validate_email (\<lambda>d. Inr [(10, ''mx'')]) ''not-an-email'' [] = validate_email (\<lambda>d. Inl Timeout) ''not-an-email'' [])"
proof -
  have h: "\<not> validate_syntax ''not-an-email''" by code_simp
  show ?thesis
    by (rule conjI [OF h invalid_syntax_skips_lookup [OF h]])
qed

text \<open>
  Claim C5 says that \<open>validate_syntax\<close> accepts exactly the addresses of the shape
  \<open>address_shape\<close>. The pattern ends in \<open>$\<close>, which also holds just before a final
  newline, so the program accepts an address of that shape followed by a newline
  (\<open>validate_syntax_iff\<close> gives the set it accepts); such an address is not of the shape.
\<close>

theorem trailing_newline_accepted:
  "validate_syntax (''a@b.co'' @ [CHR 0x0A]) \<and> \<not> address_shape (''a@b.co'' @ [CHR 0x0A])"
proof
  show "validate_syntax (''a@b.co'' @ [CHR 0x0A])" by code_simp
  have "\<not> is_letter (last (''a@b.co'' @ [CHR 0x0A]))" by (simp add: is_letter_def)
  then show "\<not> address_shape (''a@b.co'' @ [CHR 0x0A])" using address_shape_last by blast
qed

text \<open>
  Claim C6 says that two identical records always give exactly one result row. Records
  pass the hyphen filter before they are deduplicated, so two identical records whose
  title has no hyphen give no result row at all.
\<close>

theorem two_hyphenless_records_counterexample:
  "fst (process_data (\<lambda>d. Inl NXDOMAIN) ''.'' ''@acme.com''
     (scrape_profiles
        [[\<lparr>title = Some ''Jane Doe HR Manager'', link = Some ''c''\<rparr>,
          \<lparr>title = Some ''Jane Doe HR Manager'', link = Some ''c''\<rparr>]]) []) = Inr []"
  by (simp add: process_data_def scrape_profiles_def drop_duplicates_def)

text \<open>
  Claim C6, amended. The rows are deduplicated on the pair of title and link before the
  columns are computed: the frame that \<open>scrape_profiles\<close> returns holds the rows kept by
  the hyphen filter, each at its first occurrence and in the order of the input; the
  blocks of lines 139 to 157 return one result row for each row of that frame, in the
  same order, so no two result rows have the same title and link; and a search result,
  however often it occurs, has exactly one result row when its title has a hyphen and
  none when it has not.
\<close>

theorem deduplicated_in_first_occurrence_order:
  "\<exists>out log'.
     process_data resolve separator email_suffix (scrape_profiles pages) log = (Inr out, log') \<and>
     scrape_profiles pages = first_occurrences (kept_rows pages) \<and>
     map source_row out = scrape_profiles pages \<and>
     distinct (map source_row out) \<and>
     (\<forall>r\<in>set (concat pages).
        length (filter (\<lambda>row. Some (Title row) = title r \<and> Link row = link r) out) =
          (if row_of_result r = None then 0 else 1))"
proof -
  obtain out log' where
    p: "process_data resolve separator email_suffix (scrape_profiles pages) log = (Inr out, log')"
    and m: "map source_row out = scrape_profiles pages"
    using process_data_rows [of resolve separator email_suffix "scrape_profiles pages" log] by blast
  have 1: "scrape_profiles pages = first_occurrences (kept_rows pages)"
    by (simp add: scrape_profiles_eq drop_duplicates_first_occurrences)
  have 2: "distinct (map source_row out)"
    by (simp add: m scrape_profiles_eq distinct_drop_duplicates)
  have s: "set (map source_row out) = set (kept_rows pages)"
    by (simp only: m scrape_profiles_eq set_drop_duplicates)
  have 3: "length (filter (\<lambda>row. Some (Title row) = title r \<and> Link row = link r) out) =
      (if row_of_result r = None then 0 else 1)" if r: "r \<in> set (concat pages)" for r
  proof (cases "row_of_result r")
    case None
    have "\<not> (Some (Title row) = title r \<and> Link row = link r)" if "row \<in> set out" for row
    proof
      assume eq: "Some (Title row) = title r \<and> Link row = link r"
      from that have "source_row row \<in> set (map source_row out)" by (simp only: set_map) (rule imageI)
      with s have "CHR ''-'' \<in> set (Title (source_row row))" using kept_rows_hyphen by blast
      then have "CHR ''-'' \<in> set (Title row)" by (simp add: source_row_def)
      with eq None show False by (cases "title r") (auto simp: row_of_result_def)
    qed
    then have "filter (\<lambda>row. Some (Title row) = title r \<and> Link row = link r) out = []"
      by (simp add: filter_empty_conv)
    with None show ?thesis by simp
  next
    case (Some w)
    with r have "w \<in> set (kept_rows pages)" unfolding kept_rows_member by blast
    with s have "w \<in> set (map source_row out)" by simp
    with 2 have "length (filter (\<lambda>row. source_row row = w) out) = 1" by (rule length_filter_distinct)
    moreover have "(\<lambda>row. Some (Title row) = title r \<and> Link row = link r) = (\<lambda>row. source_row row = w)"
      using source_row_eq_iff [OF Some] by blast
    ultimately show ?thesis using Some by simp
  qed
  from p 1 m 2 3 show ?thesis by blast
qed

text \<open>
  A page with the same result twice and another one between.
\<close>

theorem deduplicated_in_first_occurrence_order_witness:
  "\<exists>out. fst (process_data (\<lambda>d. Inl NXDOMAIN) ''.'' ''@acme.com'' (scrape_profiles
     [[\<lparr>title = Some ''Jane Doe - HR'', link = Some ''a''\<rparr>,
       \<lparr>title = Some ''John Roe - Recruiter'', link = Some ''b''\<rparr>,
       \<lparr>title = Some ''Jane Doe - HR'', link = Some ''a''\<rparr>]]) []) = Inr out \<and>
     map source_row out =
       [\<lparr>Title = ''Jane Doe - HR'', Link = Some ''a''\<rparr>,
        \<lparr>Title = ''John Roe - Recruiter'', Link = Some ''b''\<rparr>]"
proof -
  let ?pages = "[[\<lparr>title = Some ''Jane Doe - HR'', link = Some ''a''\<rparr>,
       \<lparr>title = Some ''John Roe - Recruiter'', link = Some ''b''\<rparr>,
       \<lparr>title = Some ''Jane Doe - HR'', link = Some ''a''\<rparr>]]"
  have k: "first_occurrences (kept_rows ?pages) =
     [\<lparr>Title = ''Jane Doe - HR'', Link = Some ''a''\<rparr>,
      \<lparr>Title = ''John Roe - Recruiter'', Link = Some ''b''\<rparr>]"
    by (simp add: first_occurrences_def kept_rows_def map_filter_simps row_of_result_def
        upt_conv_Cons)
  from deduplicated_in_first_occurrence_order [of "\<lambda>d. Inl NXDOMAIN" "''.''" "''@acme.com''" ?pages "[]"]
  obtain out log' where
    p: "process_data (\<lambda>d. Inl NXDOMAIN) ''.'' ''@acme.com'' (scrape_profiles ?pages) [] = (Inr out, log')"
    and f: "scrape_profiles ?pages = first_occurrences (kept_rows ?pages)"
    and m: "map source_row out = scrape_profiles ?pages"
    by (elim exE conjE)
  from p have 1: "fst (process_data (\<lambda>d. Inl NXDOMAIN) ''.'' ''@acme.com'' (scrape_profiles ?pages) []) = Inr out"
    by (simp only: fst_conv)
  from m f k have 2: "map source_row out =
       [\<lparr>Title = ''Jane Doe - HR'', Link = Some ''a''\<rparr>,
        \<lparr>Title = ''John Roe - Recruiter'', Link = Some ''b''\<rparr>]"
    by (simp only:)
  show ?thesis by (rule exI [of _ out]) (rule conjI [OF 1 2])
qed

text \<open>
  Claim C7. A search result whose title has no hyphen (or that has no title) changes
  nothing: the frame that \<open>scrape_profiles\<close> returns with it is the frame without it, and
  so are the result rows and the lookups of lines 139 to 157; those blocks return their
  rows rather than raise; and no result row has the title of that search result.
\<close>

theorem hyphenless_record_dropped:
  assumes "\<forall>t. title r = Some t \<longrightarrow> CHR ''-'' \<notin> set t"
  shows "scrape_profiles (ps @ (xs @ r # ys) # qs) = scrape_profiles (ps @ (xs @ ys) # qs) \<and>
         process_data resolve separator email_suffix (scrape_profiles (ps @ (xs @ r # ys) # qs)) log =
           process_data resolve separator email_suffix (scrape_profiles (ps @ (xs @ ys) # qs)) log \<and>
         (\<exists>out log'.
            process_data resolve separator email_suffix (scrape_profiles (ps @ (xs @ r # ys) # qs)) log =
              (Inr out, log') \<and>
            (\<forall>row\<in>set out. title r \<noteq> Some (Title row)))"
proof -
  let ?with = "ps @ (xs @ r # ys) # qs" and ?without = "ps @ (xs @ ys) # qs"
  have none: "row_of_result r = None"
    using assms by (cases "title r") (auto simp: row_of_result_def)
  have "kept_rows ?with = kept_rows ?without"
    by (simp add: kept_rows_def map_filter_append map_filter_simps none)
  then have s: "scrape_profiles ?with = scrape_profiles ?without"
    by (simp add: scrape_profiles_eq)
  obtain out log' where
    p: "process_data resolve separator email_suffix (scrape_profiles ?with) log = (Inr out, log')"
    and m: "map source_row out = scrape_profiles ?with"
    using process_data_rows [of resolve separator email_suffix "scrape_profiles ?with" log] by blast
  have 2: "title r \<noteq> Some (Title row)" if "row \<in> set out" for row
  proof
    assume t: "title r = Some (Title row)"
    from that have "source_row row \<in> set (map source_row out)" by (simp only: set_map) (rule imageI)
    then have "source_row row \<in> set (kept_rows ?with)"
      by (simp only: m scrape_profiles_eq set_drop_duplicates)
    then have "CHR ''-'' \<in> set (Title (source_row row))" by (rule kept_rows_hyphen)
    then have "CHR ''-'' \<in> set (Title row)" by (simp add: source_row_def)
    with assms t show False by blast
  qed
  from s p 2 show ?thesis by (simp only: s) blast
qed

text \<open>
  The specification's fifth scenario beside a title with a hyphen.
\<close>

theorem hyphenless_record_dropped_witness:
  "scrape_profiles
     [[\<lparr>title = Some ''Jane Doe - HR'', link = Some ''a''\<rparr>,
       \<lparr>title = Some ''Jane Doe HR Manager'', link = Some ''c''\<rparr>]] =
   scrape_profiles [[\<lparr>title = Some ''Jane Doe - HR'', link = Some ''a''\<rparr>]]"
proof -
  have h: "\<forall>t. title \<lparr>title = Some ''Jane Doe HR Manager'', link = Some ''c''\<rparr> = Some t \<longrightarrow>
      CHR ''-'' \<notin> set t" by simp
  from hyphenless_record_dropped [OF h, of "[]"
      "[\<lparr>title = Some ''Jane Doe - HR'', link = Some ''a''\<rparr>]" "[]" "[]"
      "\<lambda>d. Inl NXDOMAIN" "''.''" "''@acme.com''" "[]"]
  show ?thesis by simp
qed

text \<open>
  Claim C8. \<open>validate_mx\<close> always returns a truth value and never raises: the value is
  true exactly when the lookup returns at least one record, and false whenever the lookup
  fails, whatever the failure. Each call makes one lookup, of the domain it was given.
\<close>

theorem validate_mx_never_raises:
  "(\<exists>found. fst (validate_mx resolve domain log) = Inr found \<and>
       (found \<longleftrightarrow> (\<exists>records. resolve domain = Inr records \<and> 1 \<le> length records))) \<and>
   (\<forall>failure. resolve domain = Inl failure \<longrightarrow> fst (validate_mx resolve domain log) = Inr False) \<and>
   snd (validate_mx resolve domain log) = log @ [domain]"
  by (cases "resolve domain") (auto simp: validate_mx_eq Suc_le_eq)

text \<open>
  A lookup that times out.
\<close>

theorem validate_mx_never_raises_witness:
  "fst (validate_mx (\<lambda>d. Inl Timeout) ''acme.com'' []) = Inr False"
  using validate_mx_never_raises [of "\<lambda>d. Inl Timeout" "''acme.com''" "[]"] by simp

text \<open>
  Claim C9 says that the full name, a hyphen and the position give the title back up to
  the whitespace trimmed around the hyphen. \<open>strip\<close> also removes the whitespace at the
  start and at the end of the title, so a title that begins with a blank is not given
  back up to the whitespace around its hyphen.
\<close>

theorem round_trip_outer_whitespace_counterexample:
  "full_name_of '' Jane-HR'' = Some ''Jane'' \<and> position_of '' Jane-HR'' = Some ''HR'' \<and>
   ''Jane'' @ ''-'' @ ''HR'' \<noteq> trimmed_around CHR ''-'' '' Jane-HR''"
  by code_simp

text \<open>
  Claim C9, amended. For every title with exactly one hyphen, both the full name and the
  position are present, and the title is the full name, a hyphen and the position with
  runs of whitespace put back where \<open>strip\<close> removed them: on either side of the hyphen
  and at the start and the end of the title. Splitting the full name, a hyphen and the
  position again gives the same full name and position.
\<close>

theorem parse_round_trip:
  assumes "count_list t CHR ''-'' = 1"
  shows "\<exists>full pos. full_name_of t = Some full \<and> position_of t = Some pos \<and>
           (\<exists>w1 w2 w3 w4. list_all isspace w1 \<and> list_all isspace w2 \<and>
              list_all isspace w3 \<and> list_all isspace w4 \<and>
              t = w1 @ full @ w2 @ ''-'' @ w3 @ pos @ w4) \<and>
           full_name_of (full @ ''-'' @ pos) = Some full \<and>
           position_of (full @ ''-'' @ pos) = Some pos"
proof -
  from assms obtain a b where t: "t = a @ CHR ''-'' # b"
    and a: "CHR ''-'' \<notin> set a" and b: "CHR ''-'' \<notin> set b"
    by (rule count_list_one_split)
  have full: "full_name_of t = Some (strip a)"
    using a by (simp add: t full_name_of_eq before_first_append)
  have pos: "position_of t = Some (strip b)"
    using a b by (simp add: t position_of_eq after_first_append before_first_no_sep)
  obtain w1 w2 where wa: "list_all isspace w1" "list_all isspace w2" "a = w1 @ strip a @ w2"
    using strip_decompose [of a] by blast
  obtain w3 w4 where wb: "list_all isspace w3" "list_all isspace w4" "b = w3 @ strip b @ w4"
    using strip_decompose [of b] by blast
  have "t = (w1 @ strip a @ w2) @ CHR ''-'' # (w3 @ strip b @ w4)"
    using wa(3) wb(3) t by simp
  then have dec: "t = w1 @ strip a @ w2 @ ''-'' @ w3 @ strip b @ w4" by simp
  have sa: "CHR ''-'' \<notin> set (strip a)" using a set_strip [of a] by blast
  have sb: "CHR ''-'' \<notin> set (strip b)" using b set_strip [of b] by blast
  have again_full: "full_name_of (strip a @ ''-'' @ strip b) = Some (strip a)"
    using sa by (simp add: full_name_of_eq before_first_append strip_strip)
  have again_pos: "position_of (strip a @ ''-'' @ strip b) = Some (strip b)"
    using sa sb by (simp add: position_of_eq after_first_append before_first_no_sep strip_strip)
  from full pos wa(1,2) wb(1,2) dec again_full again_pos show ?thesis by blast
qed

text \<open>
  The title of the specification's first scenario.
\<close>

theorem parse_round_trip_witness:
  "count_list ''Jane Doe - HR Manager'' CHR ''-'' = 1 \<and>
   (\<exists>full pos. full_name_of ''Jane Doe - HR Manager'' = Some full \<and>
      position_of ''Jane Doe - HR Manager'' = Some pos \<and>
      (\<exists>w1 w2 w3 w4. list_all isspace w1 \<and> list_all isspace w2 \<and>
         list_all isspace w3 \<and> list_all isspace w4 \<and>
         ''Jane Doe - HR Manager'' = w1 @ full @ w2 @ ''-'' @ w3 @ pos @ w4) \<and>
      full_name_of (full @ ''-'' @ pos) = Some full \<and>
      position_of (full @ ''-'' @ pos) = Some pos)"
proof -
  have h: "count_list ''Jane Doe - HR Manager'' CHR ''-'' = 1" by simp
  show ?thesis by (rule conjI [OF h parse_round_trip [OF h]])
qed

text \<open>
  Claim C10. Every address that \<open>validate_syntax\<close> accepts has exactly one \<open>@\<close>; it is the
  text before the \<open>@\<close>, the \<open>@\<close> and the text after it; index 1 of the address split at
  \<open>@\<close> is in bounds and is the whole text after the \<open>@\<close>; and \<open>validate_email\<close> on such an
  address raises no \<open>IndexError\<close>, looks up exactly that text, once, and returns the
  verdict that \<open>validate_mx\<close> of that text gives.
\<close>

theorem domain_extraction_in_bounds:
  assumes "validate_syntax addr"
  shows "count_list addr CHR ''@'' = 1 \<and>
         addr = before_first CHR ''@'' addr @ CHR ''@'' # after_first CHR ''@'' addr \<and>
         getitem (str_split CHR ''@'' addr) 1 = Inr (after_first CHR ''@'' addr) \<and>
         validate_email resolve addr log =
           (case validate_mx resolve (after_first CHR ''@'' addr) log of
              (Inl e, log') \<Rightarrow> (Inl e, log')
            | (Inr found, log') \<Rightarrow>
                if found then (Inr (''Valid Domain'', ''High''), log')
                else (Inr (''No MX Record'', ''Medium''), log')) \<and>
         snd (validate_email resolve addr log) = log @ [after_first CHR ''@'' addr] \<and>
         fst (validate_email resolve addr log) \<noteq> Inl IndexError"
proof -
  note d = validate_syntax_domain [OF assms]
  have e: "validate_email resolve addr log =
           (case validate_mx resolve (after_first CHR ''@'' addr) log of
              (Inl e, log') \<Rightarrow> (Inl e, log')
            | (Inr found, log') \<Rightarrow>
                if found then (Inr (''Valid Domain'', ''High''), log')
                else (Inr (''No MX Record'', ''Medium''), log'))"
    using assms by (simp add: validate_email_def d(3))
  have s: "snd (validate_email resolve addr log) = log @ [after_first CHR ''@'' addr]"
    by (simp add: validate_email_valid [OF assms])
  have f: "fst (validate_email resolve addr log) \<noteq> Inl IndexError"
    by (simp add: validate_email_valid [OF assms])
  from d e s f show ?thesis by (intro conjI)
qed

text \<open>
  The address \<open>a.b@c.com\<close>.
\<close>

theorem domain_extraction_in_bounds_witness:
  "validate_syntax ''a.b@c.com'' \<and>
   getitem (str_split CHR ''@'' ''a.b@c.com'') 1 = Inr ''c.com'' \<and>
   snd (validate_email (\<lambda>d. Inl NXDOMAIN) ''a.b@c.com'' []) = [''c.com'']"
proof -
  have h: "validate_syntax ''a.b@c.com''" by code_simp
  have a: "after_first CHR ''@'' ''a.b@c.com'' = ''c.com''" by code_simp
  note t = domain_extraction_in_bounds [OF h, of "\<lambda>d. Inl NXDOMAIN" "[]"]
  from t have 1: "getitem (str_split CHR ''@'' ''a.b@c.com'') 1 = Inr (after_first CHR ''@'' ''a.b@c.com'')"
    by (elim conjE)
  from t have 2: "snd (validate_email (\<lambda>d. Inl NXDOMAIN) ''a.b@c.com'' []) =
      [] @ [after_first CHR ''@'' ''a.b@c.com'']"
    by (elim conjE)
  from h 1 2 show ?thesis unfolding a by simp
qed

end
